theory Spec2Isabelle
  imports Main
begin

section \<open>ssecat: a Server-Sent-Events broker (ssed.go)\<close>

text \<open>
  The program has one \<^emph>\<open>listen\<close> goroutine that owns the map \<open>clients\<close>, one handler
  goroutine per HTTP connection (\<open>ServeHTTP\<close>), one watcher goroutine per handler (the
  \<open>go func\<close> waiting on \<open>CloseNotify\<close>) and one producer goroutine (\<open>PromptHandler\<close> with
  flag \<open>-p\<close>, the scanner loop of \<open>main\<close> otherwise). They meet on Go channels. The
  embedding is an interleaving semantics: a state holds the shared data and one program
  counter per goroutine; \<open>step\<close> executes one labelled action and returns \<open>None\<close> where
  the action is not enabled (the goroutine would block, or is elsewhere in its code).
  A send on an unbuffered channel and the matching receive are one joint action.
\<close>

subsection \<open>Byte slices\<close>

text \<open>
  A Go \<open>[]byte\<close> is a window into a backing array, not a copy of the bytes. The
  producers hand out what \<open>bufio\<close> returns (\<open>scan.Bytes()\<close>, line 156, and the line of
  \<open>reader.ReadLine()\<close>, line 131, where the conversion \<open>[]byte(line)\<close> of a \<open>[]byte\<close>
  copies nothing), so a message is a window into the reader's buffer. The store maps
  an array to its current contents.
\<close>

type_synonym chan = nat
type_synonym bytes = string

record slice =
  slice_arr :: nat
  slice_off :: nat
  slice_len :: nat

definition deref :: "(nat \<Rightarrow> bytes) \<Rightarrow> slice \<Rightarrow> bytes" where
  "deref h b = take (slice_len b) (drop (slice_off b) (h (slice_arr b)))"

text \<open>
  One call of the \<open>bufio\<close> reader (\<open>scan.Scan()\<close> or \<open>reader.ReadLine()\<close>), seen from
  the program: the call leaves the reader's buffer \<open>buf_arr\<close> with the contents
  \<open>buf_data\<close> and yields the window \<open>[tok_off, tok_off + tok_len)\<close> of it. The library
  is not part of the repository; what it does on a call is a label of the action.
\<close>

record lib_read =
  buf_arr :: nat
  buf_data :: bytes
  tok_off :: nat
  tok_len :: nat

definition token :: "lib_read \<Rightarrow> slice" where
  "token r = \<lparr>slice_arr = buf_arr r, slice_off = tok_off r, slice_len = tok_len r\<rparr>"

definition unit_bytes :: "lib_read \<Rightarrow> bytes" where
  "unit_bytes r = take (tok_len r) (drop (tok_off r) (buf_data r))"

definition in_bounds :: "lib_read \<Rightarrow> bool" where
  "in_bounds r = (tok_off r + tok_len r \<le> length (buf_data r))"

definition store :: "(nat \<Rightarrow> bytes) \<Rightarrow> lib_read \<Rightarrow> (nat \<Rightarrow> bytes)" where
  "store h r = h(buf_arr r := buf_data r)"

subsection \<open>The Broker and the select cases of \<open>listen\<close>\<close>

text \<open>
  \<open>Notifier\<close> is a channel with a buffer of one element (line 34): the list of buffered
  elements. \<open>newClients\<close> and \<open>closingClients\<close> are unbuffered (lines 35, 36) and hold
  nothing. \<open>clients\<close> is the map of line 28; \<open>delete\<close> of a missing key does nothing.
\<close>

record Broker =
  Notifier :: "slice list"
  clients :: "chan \<rightharpoonup> bool"

definition Notifier_cap :: nat where
  "Notifier_cap = 1"

definition NewServer :: Broker where
  "NewServer = \<lparr>Notifier = [], clients = Map.empty\<rparr>"

datatype intake = NewClient chan | ClosingClient chan | Event slice

fun listen_case :: "intake \<Rightarrow> (chan \<rightharpoonup> bool) \<Rightarrow> (chan \<rightharpoonup> bool)" where
  "listen_case (NewClient s) m = m(s \<mapsto> True)"
| "listen_case (ClosingClient s) m = m(s := None)"
| "listen_case (Event e) m = m"

fun listen_all :: "intake list \<Rightarrow> (chan \<rightharpoonup> bool) \<Rightarrow> (chan \<rightharpoonup> bool)" where
  "listen_all [] m = m"
| "listen_all (i # rest) m = listen_all rest (listen_case i m)"

text \<open>
  The registry the words "registered and not subsequently deregistered" describe: a
  channel is live after a sequence of intake events when some registration of it is
  followed by no deregistration of it.
\<close>

fun registered_live :: "chan \<Rightarrow> intake list \<Rightarrow> bool" where
  "registered_live c [] = False"
| "registered_live c (i # rest) =
     (registered_live c rest \<or> (i = NewClient c \<and> ClosingClient c \<notin> set rest))"

subsection \<open>Program counters\<close>

datatype listen_pc =
    L_Select
  | L_Range slice "chan list"

datatype handler_pc =
    H_Unsupported
  | H_Register bool
  | H_Recv
  | H_Write bytes
  | H_Defer
  | H_Exit

datatype watcher_pc = W_Wait | W_Send | W_Done

datatype producer_pc =
    P_Scan
  | P_Prompt
  | P_Read
  | P_Send slice
  | P_Log slice
  | P_Done

text \<open>
  \<^item> \<open>L_Select\<close>: at the \<open>select\<close> of line 96. \<open>L_Range e cs\<close>: in the loop of lines
    111-113 for event \<open>e\<close>, blocked in the send to the first channel of \<open>cs\<close>; \<open>cs\<close> are the
    keys the \<open>range\<close> has still to produce.
  \<^item> \<open>H_Unsupported\<close>: returned at line 54. \<open>H_Register cn\<close>: blocked in the send of line
    66; \<open>cn\<close> says whether the writer implements \<open>http.CloseNotifier\<close>. \<open>H_Recv\<close>: blocked
    in \<open><-messageChan\<close> of line 86. \<open>H_Write ev\<close>: the event text is formatted, its
    write and flush (lines 86, 89) are under way. \<open>H_Defer\<close>: the type assertion of line
    75 panicked and the deferred send of line 71 is blocked. \<open>H_Exit\<close>: the handler is gone.
  \<^item> \<open>W_Wait\<close>: line 78. \<open>W_Send\<close>: blocked in the send of line 79. \<open>W_Done\<close>: returned.
  \<^item> \<open>P_Scan\<close>: line 155. \<open>P_Prompt\<close>: line 123. \<open>P_Read\<close>: line 124. \<open>P_Send e\<close>: blocked
    in the send of line 131 or 156. \<open>P_Log e\<close>: line 158. \<open>P_Done\<close>: the scanner loop ended.
\<close>

record state = Broker +
  prompt_flag :: bool
  addr_flag :: string
  verbose_flag :: bool
  listening :: bool
  lpc :: listen_pc
  hpc :: "chan \<rightharpoonup> handler_pc"
  wpc :: "chan \<rightharpoonup> watcher_pc"
  rw_header :: "chan \<Rightarrow> (string \<times> string) list"
  rw_status :: "chan \<rightharpoonup> nat"
  rw_body :: "chan \<Rightarrow> bytes"
  ppc :: producer_pc
  heap :: "nat \<Rightarrow> bytes"
  stdout :: string

subsection \<open>Formatting\<close>

fun show_nat :: "nat \<Rightarrow> string" where
  "show_nat n =
     (if n < 10 then [''0123456789'' ! n]
      else show_nat (n div 10) @ [''0123456789'' ! (n mod 10)])"

declare show_nat.simps [simp del]

definition len_clients :: "(chan \<rightharpoonup> bool) \<Rightarrow> nat" where
  "len_clients m = card (dom m)"

definition prompt_text :: "(chan \<rightharpoonup> bool) \<Rightarrow> string" where
  "prompt_text m = ''('' @ show_nat (len_clients m) @ '' clients)-> ''"

definition log_text :: "string \<Rightarrow> (chan \<rightharpoonup> bool) \<Rightarrow> bytes \<Rightarrow> string" where
  "log_text now m b =
     ''['' @ now @ ''] '' @ show_nat (len_clients m) @ '' clients: '' @ b @ ''\<newline>''"

definition sse_event :: "bytes \<Rightarrow> bytes" where
  "sse_event b = ''data: '' @ b @ ''\<newline>\<newline>''"

definition sse_headers :: "(string \<times> string) list" where
  "sse_headers =
     [(''Content-Type'', ''text/event-stream''),
      (''Cache-Control'', ''no-cache''),
      (''Connection'', ''keep-alive''),
      (''Access-Control-Allow-Origin'', ''*'')]"

definition range_pc :: "slice \<Rightarrow> chan list \<Rightarrow> listen_pc" where
  "range_pc e cs = (if cs = [] then L_Select else L_Range e cs)"

subsection \<open>Actions\<close>

text \<open>
  A handler is named by the channel it makes at line 63. The labels carry what the
  environment decides: the capabilities of a connection's writer, the order in which
  \<open>range\<close> produces the keys of the map, whether a write succeeds, what the \<open>bufio\<close>
  reader returns, the formatted clock.
\<close>

datatype action =
    Listen
  | Accept chan bool bool
  | Register chan
  | Disconnect chan
  | WatcherDeregister chan
  | DeferDeregister chan
  | Take slice "chan list"
  | Deliver chan slice
  | WriteDone chan bool
  | Scan "lib_read option"
  | Prompt
  | ReadLine lib_read "string option"
  | Publish slice
  | Log string

fun step :: "action \<Rightarrow> state \<Rightarrow> state option" where
  "step Listen s =
     (if listening s then None
      else Some (s\<lparr>listening := True,
                    stdout := stdout s @ ''Listening on  '' @ addr_flag s @ ''\<newline>''\<rparr>))"
| "step (Accept k fl cn) s =
     (if listening s \<and> hpc s k = None then
        (if fl then
           Some (s\<lparr>hpc := (hpc s)(k \<mapsto> H_Register cn),
                    rw_header := (rw_header s)(k := sse_headers)\<rparr>)
         else
           Some (s\<lparr>hpc := (hpc s)(k \<mapsto> H_Unsupported),
                    rw_status := (rw_status s)(k \<mapsto> 500),
                    rw_body := (rw_body s)(k := ''Streaming unsupported!\<newline>'')\<rparr>))
      else None)"
| "step (Register k) s =
     (case hpc s k of
        Some (H_Register cn) \<Rightarrow>
          (if lpc s = L_Select then
             Some (s\<lparr>clients := listen_case (NewClient k) (clients s),
                      hpc := (hpc s)(k \<mapsto> (if cn then H_Recv else H_Defer)),
                      wpc := (if cn then (wpc s)(k \<mapsto> W_Wait) else wpc s)\<rparr>)
           else None)
      | _ \<Rightarrow> None)"
| "step (Disconnect k) s =
     (if wpc s k = Some W_Wait then Some (s\<lparr>wpc := (wpc s)(k \<mapsto> W_Send)\<rparr>) else None)"
| "step (WatcherDeregister k) s =
     (if lpc s = L_Select \<and> wpc s k = Some W_Send then
        Some (s\<lparr>clients := listen_case (ClosingClient k) (clients s),
                 wpc := (wpc s)(k \<mapsto> W_Done)\<rparr>)
      else None)"
| "step (DeferDeregister k) s =
     (if lpc s = L_Select \<and> hpc s k = Some H_Defer then
        Some (s\<lparr>clients := listen_case (ClosingClient k) (clients s),
                 hpc := (hpc s)(k \<mapsto> H_Exit)\<rparr>)
      else None)"
| "step (Take e order) s =
     (case Notifier s of
        [] \<Rightarrow> None
      | e' # rest \<Rightarrow>
          (if e' = e \<and> lpc s = L_Select \<and> distinct order \<and> set order = dom (clients s) then
             Some (s\<lparr>Notifier := rest,
                      clients := listen_case (Event e) (clients s),
                      lpc := range_pc e order\<rparr>)
           else None))"
| "step (Deliver c e) s =
     (case lpc s of
        L_Range e' (c' # cs) \<Rightarrow>
          (if e' = e \<and> c' = c \<and> hpc s c = Some H_Recv then
             Some (s\<lparr>lpc := range_pc e cs,
                      hpc := (hpc s)(c \<mapsto> H_Write (sse_event (deref (heap s) e)))\<rparr>)
           else None)
      | _ \<Rightarrow> None)"
| "step (WriteDone k ok) s =
     (case hpc s k of
        Some (H_Write ev) \<Rightarrow>
          Some (s\<lparr>rw_body := (rw_body s)(k := rw_body s k @ (if ok then ev else [])),
                   hpc := (hpc s)(k \<mapsto> H_Recv)\<rparr>)
      | _ \<Rightarrow> None)"
| "step (Scan None) s =
     (if \<not> prompt_flag s \<and> ppc s = P_Scan then Some (s\<lparr>ppc := P_Done\<rparr>) else None)"
| "step (Scan (Some r)) s =
     (if \<not> prompt_flag s \<and> ppc s = P_Scan \<and> in_bounds r then
        Some (s\<lparr>heap := store (heap s) r, ppc := P_Send (token r)\<rparr>)
      else None)"
| "step Prompt s =
     (if prompt_flag s \<and> ppc s = P_Prompt then
        Some (s\<lparr>stdout := stdout s @ prompt_text (clients s), ppc := P_Read\<rparr>)
      else None)"
| "step (ReadLine r err) s =
     (if prompt_flag s \<and> ppc s = P_Read \<and> in_bounds r then
        Some (s\<lparr>heap := store (heap s) r,
                 stdout := stdout s
                   @ (case err of None \<Rightarrow> [] | Some msg \<Rightarrow> msg @ ''\<newline>'')
                   @ (if 0 < tok_len r then ''Sent message: '' @ unit_bytes r @ ''\<newline>''
                      else []),
                 ppc := (if 0 < tok_len r then P_Send (token r) else P_Prompt)\<rparr>)
      else None)"
| "step (Publish e) s =
     (if ppc s = P_Send e \<and> length (Notifier s) < Notifier_cap then
        Some (s\<lparr>Notifier := Notifier s @ [e],
                 ppc := (if prompt_flag s then P_Prompt
                         else if verbose_flag s then P_Log e else P_Scan)\<rparr>)
      else None)"
| "step (Log now) s =
     (case ppc s of
        P_Log e \<Rightarrow>
          Some (s\<lparr>stdout := stdout s @ log_text now (clients s) (deref (heap s) e),
                   ppc := P_Scan\<rparr>)
      | _ \<Rightarrow> None)"

fun exec :: "state \<Rightarrow> action list \<Rightarrow> state option" where
  "exec s [] = Some s"
| "exec s (a # rest) = (case step a s of None \<Rightarrow> None | Some s' \<Rightarrow> exec s' rest)"

definition main :: "bool \<Rightarrow> string \<Rightarrow> bool \<Rightarrow> state" where
  "main p l v =
     Broker.extend NewServer
       \<lparr>prompt_flag = p, addr_flag = l, verbose_flag = v, listening = False,
        lpc = L_Select, hpc = Map.empty, wpc = Map.empty,
        rw_header = (\<lambda>_. []), rw_status = Map.empty, rw_body = (\<lambda>_. []),
        ppc = (if p then P_Prompt else P_Scan),
        heap = (\<lambda>_. []),
        stdout = (if v then ''Verbose mode on\<newline>'' else [])
                 @ (if p then [] else ''Reading from STDIN\<newline>'')\<rparr>"

subsection \<open>Predicates on states and traces\<close>

text \<open>
  \<open>in_range s k\<close>: the \<open>range\<close> loop of \<open>listen\<close> has still to send to channel \<open>k\<close>.
  \<open>in_relay_loop s k\<close>: handler \<open>k\<close> is inside the \<open>for\<close> loop of lines 82-90.
  \<open>loop_action a\<close>: the \<open>listen\<close> goroutine takes part in action \<open>a\<close>.
\<close>

definition in_range :: "state \<Rightarrow> chan \<Rightarrow> bool" where
  "in_range s k = (case lpc s of L_Select \<Rightarrow> False | L_Range e cs \<Rightarrow> k \<in> set cs)"

definition in_relay_loop :: "state \<Rightarrow> chan \<Rightarrow> bool" where
  "in_relay_loop s k =
     (case hpc s k of Some H_Recv \<Rightarrow> True | Some (H_Write ev) \<Rightarrow> True | _ \<Rightarrow> False)"

fun loop_action :: "action \<Rightarrow> bool" where
  "loop_action (Register k) = True"
| "loop_action (WatcherDeregister k) = True"
| "loop_action (DeferDeregister k) = True"
| "loop_action (Take e order) = True"
| "loop_action (Deliver c e) = True"
| "loop_action a = False"

definition unsupported :: "state \<Rightarrow> chan \<Rightarrow> bool" where
  "unsupported s k =
     (hpc s k = Some H_Unsupported \<and> clients s k = None \<and> \<not> in_range s k \<and>
      rw_status s k = Some 500 \<and> rw_body s k = ''Streaming unsupported!\<newline>'')"

definition unknown :: "state \<Rightarrow> chan \<Rightarrow> bool" where
  "unknown s k = (hpc s k = None \<and> clients s k = None \<and> \<not> in_range s k)"

definition deregistered :: "state \<Rightarrow> chan \<Rightarrow> bool" where
  "deregistered s k = (in_relay_loop s k \<and> clients s k = None \<and> \<not> in_range s k)"

text \<open>
  Sends on \<open>closingClients\<close> of channel \<open>k\<close>: the ones the loop has received in a trace,
  and the ones a goroutine is blocked in (the watcher at line 79, the deferred call at
  line 71).
\<close>

fun dereg_sends :: "chan \<Rightarrow> action list \<Rightarrow> nat" where
  "dereg_sends k [] = 0"
| "dereg_sends k (a # rest) =
     (if a = WatcherDeregister k \<or> a = DeferDeregister k then 1 else 0) + dereg_sends k rest"

definition dereg_pending :: "state \<Rightarrow> chan \<Rightarrow> nat" where
  "dereg_pending s k =
     (if wpc s k = Some W_Send then 1 else 0) + (if hpc s k = Some H_Defer then 1 else 0)"

definition dereg_inv :: "state \<Rightarrow> chan \<Rightarrow> nat \<Rightarrow> bool" where
  "dereg_inv s k n =
     ((wpc s k \<noteq> None) = in_relay_loop s k \<and>
      n = (if wpc s k = Some W_Done \<or> hpc s k = Some H_Exit then 1 else 0))"

text \<open>
  The order of events, read off a trace. \<open>taken\<close>: the events the loop has received
  from \<open>Notifier\<close>, in order. \<open>deliveries c n\<close>: for every receive of subscriber \<open>c\<close>, the
  ordinal (counted from 1, after \<open>n\<close> earlier ones) of the taken event that was being
  fanned out. \<open>received c\<close>: the events \<open>c\<close> received, in order. \<open>alternates w c\<close>: the
  receives and the completed writes of handler \<open>c\<close> take turns; \<open>w\<close> says that a write is
  due first.
\<close>

fun taken :: "action list \<Rightarrow> slice list" where
  "taken [] = []"
| "taken (a # rest) = (case a of Take e order \<Rightarrow> [e] | _ \<Rightarrow> []) @ taken rest"

fun deliveries :: "chan \<Rightarrow> nat \<Rightarrow> action list \<Rightarrow> nat list" where
  "deliveries c n [] = []"
| "deliveries c n (a # rest) =
     (case a of
        Take e order \<Rightarrow> deliveries c (Suc n) rest
      | Deliver d e \<Rightarrow> (if d = c then [n] else []) @ deliveries c n rest
      | _ \<Rightarrow> deliveries c n rest)"

fun received :: "chan \<Rightarrow> action list \<Rightarrow> slice list" where
  "received c [] = []"
| "received c (a # rest) =
     (case a of Deliver d e \<Rightarrow> (if d = c then [e] else []) | _ \<Rightarrow> []) @ received c rest"

fun alternates :: "bool \<Rightarrow> chan \<Rightarrow> action list \<Rightarrow> bool" where
  "alternates w c [] = True"
| "alternates w c (a # rest) =
     (case a of
        Deliver d e \<Rightarrow> (if d = c then \<not> w \<and> alternates True c rest else alternates w c rest)
      | WriteDone d ok \<Rightarrow> (if d = c then w \<and> alternates False c rest else alternates w c rest)
      | _ \<Rightarrow> alternates w c rest)"

definition writing :: "state \<Rightarrow> chan \<Rightarrow> bool" where
  "writing s c = (case hpc s c of Some (H_Write ev) \<Rightarrow> True | _ \<Rightarrow> False)"

definition fifo_inv :: "state \<Rightarrow> slice list \<Rightarrow> bool" where
  "fifo_inv s tk =
     (case lpc s of L_Select \<Rightarrow> True | L_Range e cs \<Rightarrow> tk \<noteq> [] \<and> last tk = e \<and> distinct cs)"

definition lo :: "state \<Rightarrow> nat \<Rightarrow> chan \<Rightarrow> nat" where
  "lo s n c = (if in_range s c then n else Suc n)"

text \<open>
  The producer, read off a trace. \<open>yielded\<close>: the units the \<open>bufio\<close> reader has
  yielded, in order. \<open>published h\<close>: the bytes of every message at the moment it was
  sent on \<open>Notifier\<close>, in order, \<open>h\<close> being the store at the start of the trace.
  \<open>pending_send s\<close>: the message the producer is blocked sending, if any.
\<close>

fun yielded :: "action list \<Rightarrow> bytes list" where
  "yielded [] = []"
| "yielded (a # rest) =
     (case a of
        Scan x \<Rightarrow> (case x of None \<Rightarrow> [] | Some r \<Rightarrow> [unit_bytes r])
      | ReadLine r err \<Rightarrow> [unit_bytes r]
      | _ \<Rightarrow> []) @ yielded rest"

fun published :: "(nat \<Rightarrow> bytes) \<Rightarrow> action list \<Rightarrow> bytes list" where
  "published h [] = []"
| "published h (a # rest) =
     (case a of
        Scan x \<Rightarrow> published (case x of None \<Rightarrow> h | Some r \<Rightarrow> store h r) rest
      | ReadLine r err \<Rightarrow> published (store h r) rest
      | Publish e \<Rightarrow> deref h e # published h rest
      | _ \<Rightarrow> published h rest)"

definition pending_send :: "state \<Rightarrow> bytes list" where
  "pending_send s = (case ppc s of P_Send e \<Rightarrow> [deref (heap s) e] | _ \<Rightarrow> [])"

definition to_publish :: "bool \<Rightarrow> action list \<Rightarrow> bytes list" where
  "to_publish p acts = (if p then filter (\<lambda>u. u \<noteq> []) (yielded acts) else yielded acts)"

subsection \<open>Sample inputs\<close>

text \<open>
  Successive results of a reader that refills its buffer, array 0, from the start, as
  \<open>bufio.Reader.ReadLine\<close> does for every line typed at a terminal and
  \<open>bufio.Scanner\<close> does whenever it compacts its buffer.
\<close>

definition line0 :: lib_read where
  "line0 = \<lparr>buf_arr = 0, buf_data = ''first\<newline>'', tok_off = 0, tok_len = 5\<rparr>"

definition line1 :: lib_read where
  "line1 = \<lparr>buf_arr = 0, buf_data = ''hello\<newline>'', tok_off = 0, tok_len = 5\<rparr>"

definition line2 :: lib_read where
  "line2 = \<lparr>buf_arr = 0, buf_data = ''WORLD!\<newline>'', tok_off = 0, tok_len = 6\<rparr>"

definition empty_line :: lib_read where
  "empty_line = \<lparr>buf_arr = 0, buf_data = ''\<newline>'', tok_off = 0, tok_len = 0\<rparr>"

section \<open>Basic facts about \<open>step\<close> and \<open>exec\<close>\<close>

lemma main_simps [simp]:
  "clients (main p l v) = Map.empty" "Notifier (main p l v) = []" "lpc (main p l v) = L_Select"
  "hpc (main p l v) = Map.empty" "wpc (main p l v) = Map.empty"
  "ppc (main p l v) = (if p then P_Prompt else P_Scan)"
  "prompt_flag (main p l v) = p" "verbose_flag (main p l v) = v" "addr_flag (main p l v) = l"
  "listening (main p l v) = False" "heap (main p l v) = (\<lambda>_. [])"
  "rw_body (main p l v) = (\<lambda>_. [])" "rw_status (main p l v) = Map.empty"
  by (simp_all add: main_def NewServer_def state.defs Broker.defs)

lemma exec_append:
  "exec s (xs @ ys) = (case exec s xs of None \<Rightarrow> None | Some t \<Rightarrow> exec t ys)"
  by (induction xs arbitrary: s) (auto split: option.splits)

lemma exec_invariant:
  assumes "exec s acts = Some t" and "P s"
    and "\<And>a u w. P u \<Longrightarrow> step a u = Some w \<Longrightarrow> P w"
  shows "P t"
  using assms(1,2)
proof (induction acts arbitrary: s)
  case Nil
  then show ?case by simp
next
  case (Cons a rest)
  then show ?case
    by (auto split: option.splits intro: assms(3))
qed


lemmas step_splits = if_splits option.splits handler_pc.splits list.splits listen_pc.splits
  producer_pc.splits

section \<open>The registry under the select cases\<close>

lemma listen_all_entry:
  "listen_all ops m c =
     (if registered_live c ops then Some True
      else if ClosingClient c \<in> set ops then None else m c)"
proof (induction ops arbitrary: m)
  case Nil
  show ?case by simp
next
  case (Cons i rest)
  show ?case
    by (cases i) (auto simp: Cons.IH)
qed

text \<open>
  C2. Whatever finite sequence of registrations, deregistrations and events the loop of
  \<open>listen\<close> has received, once it has worked through all of them the keys of \<open>clients\<close>
  are exactly the channels with a registration that no later deregistration follows.
  The registry is a map, so a channel has at most one entry; every entry holds \<open>true\<close>.
\<close>

theorem registry_after_drain:
  "dom (listen_all ops Map.empty) = {c. registered_live c ops} \<and>
   (\<forall>c \<in> dom (listen_all ops Map.empty). listen_all ops Map.empty c = Some True)"
  by (auto simp: listen_all_entry dom_def)

theorem registry_after_drain_witness:
  "dom (listen_all
          [NewClient 1, NewClient 2, NewClient 1,
           Event \<lparr>slice_arr = 0, slice_off = 0, slice_len = 2\<rparr>,
           ClosingClient 2, ClosingClient 3, ClosingClient 2,
           NewClient 4, ClosingClient 4, NewClient 4]
          Map.empty) = {1, 4} \<and>
   listen_all
     [NewClient 1, NewClient 2, NewClient 1,
      Event \<lparr>slice_arr = 0, slice_off = 0, slice_len = 2\<rparr>,
      ClosingClient 2, ClosingClient 3, ClosingClient 2,
      NewClient 4, ClosingClient 4, NewClient 4]
     Map.empty 1 = Some True"
  using registry_after_drain
    [of "[NewClient 1, NewClient 2, NewClient 1,
          Event \<lparr>slice_arr = 0, slice_off = 0, slice_len = 2\<rparr>,
          ClosingClient 2, ClosingClient 3, ClosingClient 2,
          NewClient 4, ClosingClient 4, NewClient 4]"]
  by auto

text \<open>
  C5. The \<open>closingClients\<close> case of \<open>listen\<close> (line 106) for a channel that is not in the
  registry leaves the registry as it is; running it a second time changes nothing the
  first run had not changed; the entries of all other channels stay as they were. The
  case is a total function of the registry: there is no error result.
\<close>

theorem deregister_idempotent:
  "(m c = None \<longrightarrow> listen_case (ClosingClient c) m = m) \<and>
   listen_case (ClosingClient c) (listen_case (ClosingClient c) m)
     = listen_case (ClosingClient c) m \<and>
   (\<forall>d. d \<noteq> c \<longrightarrow> listen_case (ClosingClient c) m d = m d)"
  by (auto intro: ext)

theorem deregister_idempotent_witness:
  "listen_case (ClosingClient 7) [3 \<mapsto> True] = [3 \<mapsto> True] \<and>
   listen_case (ClosingClient 3) (listen_case (ClosingClient 3) [3 \<mapsto> True, 5 \<mapsto> True])
     = listen_case (ClosingClient 3) [3 \<mapsto> True, 5 \<mapsto> True] \<and>
   listen_case (ClosingClient 3) [3 \<mapsto> True, 5 \<mapsto> True] 5 = Some True"
  using deregister_idempotent [of "[3 \<mapsto> True]" 7]
    deregister_idempotent [of "[3 \<mapsto> True, 5 \<mapsto> True]" 3]
  by simp


lemma exec_ConsE:
  assumes "exec s (a # rest) = Some t"
  obtains u where "step a s = Some u" and "exec u rest = Some t"
  using assms by (auto split: option.splits)

section \<open>Handlers whose writer cannot flush\<close>

lemma step_known_stays:
  assumes "step a u = Some w" and "hpc u k \<noteq> None"
  shows "hpc w k \<noteq> None"
  using assms
  by (elim step.elims) (auto split: step_splits)

lemma no_second_accept:
  assumes "exec s acts = Some t" and "hpc s k \<noteq> None"
  shows "Accept k fl cn \<notin> set acts"
  using assms
proof (induction acts arbitrary: s)
  case Nil
  show ?case by simp
next
  case (Cons a rest)
  from Cons.prems(1) obtain u where u: "step a s = Some u" "exec u rest = Some t"
    by (rule exec_ConsE)
  have "hpc u k \<noteq> None" using u(1) Cons.prems(2) by (rule step_known_stays)
  then have "Accept k fl cn \<notin> set rest" using Cons.IH u(2) by blast
  moreover have "a \<noteq> Accept k fl cn" using u(1) Cons.prems(2) by auto
  ultimately show ?case by simp
qed

lemma step_unsupported:
  assumes "step a u = Some w" and "unsupported u k"
  shows "unsupported w k \<and> a \<noteq> Register k"
  using assms unfolding unsupported_def in_range_def
  by (elim step.elims) (auto simp: range_pc_def split: step_splits)

lemma exec_unsupported:
  assumes "exec s acts = Some t" and "unsupported s k"
  shows "unsupported t k \<and> Register k \<notin> set acts"
  using assms
proof (induction acts arbitrary: s)
  case Nil
  then show ?case by simp
next
  case (Cons a rest)
  from Cons.prems(1) obtain u where u: "step a s = Some u" "exec u rest = Some t"
    by (rule exec_ConsE)
  from step_unsupported [OF u(1) Cons.prems(2)] Cons.IH [OF u(2)]
  show ?case by auto
qed

lemma step_unknown:
  assumes "step a u = Some w" and "unknown u k"
  shows "a \<noteq> Register k \<and> (a = Accept k False cn \<longrightarrow> unsupported w k) \<and>
         (hpc w k = None \<longrightarrow> unknown w k)"
  using assms unfolding unsupported_def unknown_def in_range_def
  by (elim step.elims) (auto simp: range_pc_def split: step_splits)

lemma exec_unknown:
  assumes "exec s acts = Some t" and "unknown s k" and "Accept k False cn \<in> set acts"
  shows "unsupported t k \<and> Register k \<notin> set acts"
  using assms
proof (induction acts arbitrary: s)
  case Nil
  then show ?case by simp
next
  case (Cons a rest)
  from Cons.prems(1) obtain u where u: "step a s = Some u" "exec u rest = Some t"
    by (rule exec_ConsE)
  note st = step_unknown [OF u(1) Cons.prems(2), of cn]
  show ?case
  proof (cases "a = Accept k False cn")
    case True
    with st have "unsupported u k" by simp
    from exec_unsupported [OF u(2) this] st show ?thesis by auto
  next
    case False
    with Cons.prems(3) have mem: "Accept k False cn \<in> set rest" by simp
    have "hpc u k = None"
    proof (rule ccontr)
      assume "hpc u k \<noteq> None"
      from no_second_accept [OF u(2) this] mem show False by blast
    qed
    with st have "unknown u k" by simp
    from Cons.IH [OF u(2) this mem] st show ?thesis by auto
  qed
qed

text \<open>
  C7. A connection whose writer is no \<open>http.Flusher\<close> is answered at once with status
  500 and the text of line 53, and the step touches neither the registry, nor the
  \<open>Notifier\<close>, nor the loop of \<open>listen\<close>. In every later state of every run of the
  program the handler is still at its \<open>return\<close> of line 54, its channel is in no
  registry entry, the loop is not about to send to it, and no registration of it was
  ever received.
\<close>

theorem unsupported_transport_never_registers:
  "(\<forall>s t. step (Accept k False cn) s = Some t \<longrightarrow>
      hpc t k = Some H_Unsupported \<and> rw_status t k = Some 500 \<and>
      rw_body t k = ''Streaming unsupported!\<newline>'' \<and>
      clients t = clients s \<and> Notifier t = Notifier s \<and> lpc t = lpc s) \<and>
   (\<forall>acts t. exec (main p l v) acts = Some t \<and> Accept k False cn \<in> set acts \<longrightarrow>
      hpc t k = Some H_Unsupported \<and> clients t k = None \<and> \<not> in_range t k \<and>
      Register k \<notin> set acts)"
proof (intro conjI allI impI)
  fix acts t
  assume a: "exec (main p l v) acts = Some t \<and> Accept k False cn \<in> set acts"
  have "unknown (main p l v) k" by (simp add: unknown_def in_range_def)
  from exec_unknown [OF _ this] a have r: "unsupported t k \<and> Register k \<notin> set acts" by blast
  then show "hpc t k = Some H_Unsupported" "clients t k = None" "\<not> in_range t k"
    "Register k \<notin> set acts"
    by (simp_all add: unsupported_def)
qed (auto split: if_splits)

theorem unsupported_transport_never_registers_witness:
  "map_option (\<lambda>t. hpc t 3)
     (exec (main False ''localhost:3000'' False)
        [Listen, Accept 3 False True, Accept 4 True True, Register 4])
     = Some (Some H_Unsupported) \<and>
   map_option (\<lambda>t. clients t 3)
     (exec (main False ''localhost:3000'' False)
        [Listen, Accept 3 False True, Accept 4 True True, Register 4])
     = Some None \<and>
   map_option (\<lambda>t. clients t 4)
     (exec (main False ''localhost:3000'' False)
        [Listen, Accept 3 False True, Accept 4 True True, Register 4])
     = Some (Some True)"
proof -
  let ?tr = "[Listen, Accept 3 False True, Accept 4 True True, Register 4]"
  obtain t where t: "exec (main False ''localhost:3000'' False) ?tr = Some t"
    by simp
  have mem: "Accept 3 False True \<in> set ?tr" by simp
  from unsupported_transport_never_registers [of 3 True False "''localhost:3000''" False] t mem
  have "hpc t 3 = Some H_Unsupported \<and> clients t 3 = None" by blast
  moreover from t have "clients t 4 = Some True" by auto
  ultimately show ?thesis using t by simp
qed

section \<open>The relay loop and deregistration\<close>

lemma step_relay_loop:
  assumes "step a u = Some w" and "in_relay_loop u k"
  shows "in_relay_loop w k"
  using assms unfolding in_relay_loop_def
  by (elim step.elims) (auto split: step_splits)

lemma exec_relay_loop:
  assumes "exec s acts = Some t" and "in_relay_loop s k"
  shows "in_relay_loop t k"
  using assms(1) assms(2)
proof (rule exec_invariant)
  fix a u w
  assume "in_relay_loop u k" and "step a u = Some w"
  then show "in_relay_loop w k" by (rule step_relay_loop [rotated])
qed

lemma step_deregistered:
  assumes "step a u = Some w" and "deregistered u k"
  shows "deregistered w k \<and> (\<forall>e. a \<noteq> Deliver k e)"
  using assms unfolding deregistered_def in_relay_loop_def in_range_def
  by (elim step.elims) (auto simp: range_pc_def split: step_splits)

lemma exec_deregistered:
  assumes "exec s acts = Some t" and "deregistered s k"
  shows "deregistered t k \<and> (\<forall>e. Deliver k e \<notin> set acts)"
  using assms
proof (induction acts arbitrary: s)
  case Nil
  then show ?case by simp
next
  case (Cons a rest)
  from Cons.prems(1) obtain u where u: "step a s = Some u" "exec u rest = Some t"
    by (rule exec_ConsE)
  from step_deregistered [OF u(1) Cons.prems(2)] Cons.IH [OF u(2)]
  show ?case by auto
qed

lemma in_relay_loop_iff:
  "in_relay_loop s k \<longleftrightarrow> hpc s k = Some H_Recv \<or> (\<exists>ev. hpc s k = Some (H_Write ev))"
  by (auto simp: in_relay_loop_def split: option.splits handler_pc.splits)

lemma step_watcher_loop:
  assumes "step a u = Some w" and "(wpc u k \<noteq> None) = in_relay_loop u k"
  shows "(wpc w k \<noteq> None) = in_relay_loop w k"
  using assms unfolding in_relay_loop_iff
  by (elim step.elims) (auto split: step_splits)

lemma step_dereg_count:
  assumes "step a u = Some w" and "(wpc u k \<noteq> None) = in_relay_loop u k"
    and "n = (if wpc u k = Some W_Done \<or> hpc u k = Some H_Exit then 1 else 0)"
  shows "n + dereg_sends k [a] = (if wpc w k = Some W_Done \<or> hpc w k = Some H_Exit then 1 else 0)"
  using assms unfolding in_relay_loop_iff
  by (elim step.elims) (auto split: step_splits)

lemma step_disconnected:
  assumes "step a u = Some w" and "(wpc u k \<noteq> None) = in_relay_loop u k"
  shows "(wpc w k = Some W_Send \<or> wpc w k = Some W_Done) \<longleftrightarrow>
            (a = Disconnect k \<or> wpc u k = Some W_Send \<or> wpc u k = Some W_Done)"
  using assms unfolding in_relay_loop_iff
  by (elim step.elims) (auto split: step_splits)

lemma step_dereg_inv:
  assumes "step a u = Some w" and "dereg_inv u k n"
  shows "dereg_inv w k (n + dereg_sends k [a]) \<and>
         ((wpc w k = Some W_Send \<or> wpc w k = Some W_Done) \<longleftrightarrow>
            (a = Disconnect k \<or> wpc u k = Some W_Send \<or> wpc u k = Some W_Done))"
  using step_watcher_loop [OF assms(1), of k] step_dereg_count [OF assms(1), of k n]
    step_disconnected [OF assms(1), of k] assms(2)
  unfolding dereg_inv_def by blast

lemma exec_dereg_inv:
  assumes "exec s acts = Some t" and "dereg_inv s k n"
  shows "dereg_inv t k (n + dereg_sends k acts) \<and>
         ((wpc t k = Some W_Send \<or> wpc t k = Some W_Done) \<longleftrightarrow>
            (Disconnect k \<in> set acts \<or> wpc s k = Some W_Send \<or> wpc s k = Some W_Done))"
  using assms
proof (induction acts arbitrary: s n)
  case Nil
  then show ?case by simp
next
  case (Cons a rest)
  from Cons.prems(1) obtain u where u: "step a s = Some u" "exec u rest = Some t"
    by (rule exec_ConsE)
  note st = step_dereg_inv [OF u(1) Cons.prems(2)]
  from st have du: "dereg_inv u k (n + dereg_sends k [a])" by (rule conjunct1)
  have eq: "n + dereg_sends k [a] + dereg_sends k rest = n + dereg_sends k (a # rest)"
    by simp
  note ih = Cons.IH [OF u(2) du, unfolded eq]
  from ih have "dereg_inv t k (n + dereg_sends k (a # rest))" by (rule conjunct1)
  moreover from ih st
  have "(wpc t k = Some W_Send \<or> wpc t k = Some W_Done) \<longleftrightarrow>
        (Disconnect k \<in> set (a # rest) \<or> wpc s k = Some W_Send \<or> wpc s k = Some W_Done)"
    by auto
  ultimately show ?case by simp
qed

lemma dereg_inv_main: "dereg_inv (main p l v) k 0"
  by (simp add: dereg_inv_def in_relay_loop_def)

lemma watcher_deregister_deregistered:
  assumes "step (WatcherDeregister k) u = Some s" and "dereg_inv u k n"
  shows "deregistered s k"
  using assms unfolding dereg_inv_def deregistered_def in_relay_loop_iff in_range_def
  by (auto split: if_splits)

text \<open>
  C9, as the code behaves. A handler that has entered the loop of lines 82-90 is inside
  that loop in every later state: the loop has no exit. After the loop of \<open>listen\<close> has
  received the watcher's deregistration of channel \<open>k\<close>, whatever happens next the
  handler of \<open>k\<close> is still inside its loop, \<open>k\<close> is in no registry entry, and no event
  is sent to \<open>k\<close> again: the handler stays blocked in the receive of line 86.
\<close>

theorem relay_loop_never_returns:
  "(\<forall>s acts t. exec s acts = Some t \<and> in_relay_loop s k \<longrightarrow> in_relay_loop t k) \<and>
   (\<forall>pre post s t.
      exec (main p l v) (pre @ [WatcherDeregister k]) = Some s \<and> exec s post = Some t \<longrightarrow>
      in_relay_loop t k \<and> hpc t k \<noteq> Some H_Exit \<and> clients t k = None \<and>
      (\<forall>e. Deliver k e \<notin> set post))"
proof -
  have A: "in_relay_loop t k" if "exec s acts = Some t \<and> in_relay_loop s k" for s acts t
    using that exec_relay_loop by blast
  have B: "in_relay_loop t k \<and> hpc t k \<noteq> Some H_Exit \<and> clients t k = None \<and>
           (\<forall>e. Deliver k e \<notin> set post)"
    if a: "exec (main p l v) (pre @ [WatcherDeregister k]) = Some s \<and> exec s post = Some t"
    for pre post s t
  proof -
    from a obtain u where u: "exec (main p l v) pre = Some u"
      "step (WatcherDeregister k) u = Some s"
      by (auto simp: exec_append split: option.splits)
    from exec_dereg_inv [OF u(1) dereg_inv_main]
    have "dereg_inv u k (0 + dereg_sends k pre)" by (rule conjunct1)
    with u(2) have "deregistered s k" by (rule watcher_deregister_deregistered)
    with a have r: "deregistered t k \<and> (\<forall>e. Deliver k e \<notin> set post)"
      using exec_deregistered by blast
    then show ?thesis
      by (auto simp: deregistered_def in_relay_loop_def)
  qed
  from A B show ?thesis by blast
qed

theorem relay_loop_never_returns_witness:
  "map_option (\<lambda>t. hpc t 0)
     (exec (main False ''localhost:3000'' False)
        ([Listen, Accept 0 True True, Register 0, Disconnect 0] @ [WatcherDeregister 0]
         @ [Scan (Some \<lparr>buf_arr = 0, buf_data = ''hello\<newline>'', tok_off = 0, tok_len = 5\<rparr>),
            Publish \<lparr>slice_arr = 0, slice_off = 0, slice_len = 5\<rparr>,
            Take \<lparr>slice_arr = 0, slice_off = 0, slice_len = 5\<rparr> []]))
     = Some (Some H_Recv)"
proof -
  let ?pre = "[Listen, Accept 0 True True, Register 0, Disconnect 0]"
  let ?post = "[Scan (Some \<lparr>buf_arr = 0, buf_data = ''hello\<newline>'', tok_off = 0, tok_len = 5\<rparr>),
            Publish \<lparr>slice_arr = 0, slice_off = 0, slice_len = 5\<rparr>,
            Take \<lparr>slice_arr = 0, slice_off = 0, slice_len = 5\<rparr> []]"
  let ?m = "main False ''localhost:3000'' False"
  obtain s where s: "exec ?m (?pre @ [WatcherDeregister 0]) = Some s"
    by simp
  then have s': "s = the (exec ?m (?pre @ [WatcherDeregister 0]))" by simp
  obtain t where t: "exec s ?post = Some t"
    unfolding s' by (simp add: in_bounds_def token_def Notifier_cap_def range_pc_def)
  from relay_loop_never_returns [of 0 False "''localhost:3000''" False] s t
  have "in_relay_loop t 0 \<and> hpc t 0 \<noteq> Some H_Exit" by blast
  moreover from t have "hpc t 0 = Some H_Recv"
    unfolding s' by (auto simp: in_bounds_def token_def Notifier_cap_def range_pc_def)
  moreover from s t have "exec ?m ((?pre @ [WatcherDeregister 0]) @ ?post) = Some t"
    by (simp only: exec_append option.case)
  ultimately show ?thesis by (simp only: append_assoc option.map)
qed

text \<open>
  C3, as the code behaves. For every channel \<open>k\<close> and every run of the program, the
  sends of \<open>k\<close> on \<open>closingClients\<close> (received by the loop, or with a goroutine blocked
  in them) number at most one. There is exactly one precisely when the transport has
  reported the disconnect of \<open>k\<close> (the watcher of lines 77-80 then sends), or when the
  handler left through the panic of line 75 (the deferred call of lines 70-72 then
  sends). Whether a write failed plays no part: the result of line 86 is dropped.
\<close>

theorem deregistration_at_most_once:
  assumes "exec (main p l v) acts = Some t"
  shows "dereg_sends k acts + dereg_pending t k \<le> 1 \<and>
         (dereg_sends k acts + dereg_pending t k = 1 \<longleftrightarrow>
            Disconnect k \<in> set acts \<or> hpc t k = Some H_Defer \<or> hpc t k = Some H_Exit)"
proof -
  from exec_dereg_inv [OF assms dereg_inv_main]
  have inv: "dereg_inv t k (dereg_sends k acts)"
    and dis: "(wpc t k = Some W_Send \<or> wpc t k = Some W_Done) \<longleftrightarrow> Disconnect k \<in> set acts"
    by simp_all
  from inv have loop: "(wpc t k \<noteq> None) = in_relay_loop t k"
    and cnt: "dereg_sends k acts = (if wpc t k = Some W_Done \<or> hpc t k = Some H_Exit then 1 else 0)"
    by (simp_all add: dereg_inv_def)
  show ?thesis
  proof (cases "wpc t k")
    case None
    with loop have "\<not> in_relay_loop t k" by simp
    with None cnt dis show ?thesis
      by (auto simp: dereg_pending_def)
  next
    case (Some x)
    with loop have "in_relay_loop t k" by simp
    then have "hpc t k \<noteq> Some H_Defer" "hpc t k \<noteq> Some H_Exit"
      by (auto simp: in_relay_loop_iff)
    with Some cnt dis show ?thesis
      by (cases x) (auto simp: dereg_pending_def)
  qed
qed

theorem deregistration_at_most_once_witness:
  "map_option (\<lambda>t. dereg_sends 0 [Listen, Accept 0 True True, Register 0, Disconnect 0]
                     + dereg_pending t 0)
     (exec (main False ''localhost:3000'' False)
        [Listen, Accept 0 True True, Register 0, Disconnect 0]) = Some 1"
proof -
  let ?tr = "[Listen, Accept 0 True True, Register 0, Disconnect 0]"
  obtain t where t: "exec (main False ''localhost:3000'' False) ?tr = Some t"
    by simp
  have "Disconnect 0 \<in> set ?tr" by simp
  with deregistration_at_most_once [OF t, of 0]
  have "dereg_sends 0 ?tr + dereg_pending t 0 = 1" by blast
  with t show ?thesis by (simp only: option.map)
qed

text \<open>
  A run in which the write of line 86 fails: the handler of channel 0 has registered,
  received an event, its write failed, and it is back in the receive of line 86. No
  send of channel 0 on \<open>closingClients\<close> has happened and none is under way.
\<close>

theorem write_failure_sends_no_deregistration:
  "map_option (\<lambda>t. (dereg_sends 0
                       [Listen, Accept 0 True True, Register 0, Scan (Some line1),
                        Publish (token line1), Take (token line1) [0],
                        Deliver 0 (token line1), WriteDone 0 False]
                     + dereg_pending t 0, hpc t 0, clients t 0))
     (exec (main False ''localhost:3000'' False)
        [Listen, Accept 0 True True, Register 0, Scan (Some line1),
         Publish (token line1), Take (token line1) [0],
         Deliver 0 (token line1), WriteDone 0 False])
   = Some (0, Some H_Recv, Some True)"
  by (simp add: line1_def token_def in_bounds_def Notifier_cap_def range_pc_def
      dereg_pending_def)

section \<open>The fan-out of \<open>listen\<close> blocks on each subscriber\<close>

lemma step_blocked:
  assumes "step a u = Some w" and "lpc u = L_Range e (c # cs)" and "hpc u c \<noteq> Some H_Recv"
    and "\<forall>ok. a \<noteq> WriteDone c ok"
  shows "lpc w = L_Range e (c # cs) \<and> hpc w c \<noteq> Some H_Recv \<and> clients w = clients u \<and>
         \<not> loop_action a"
  using assms
  by (elim step.elims) (auto split: step_splits)

text \<open>
  C1, as the code behaves. While the loop of \<open>listen\<close> is in its \<open>range\<close> for event \<open>e\<close>
  and the subscriber \<open>c\<close> it is sending to is not in the receive of line 86, and as long
  as the write of that subscriber does not complete, the loop stays where it is: it
  takes part in no action at all (no send of \<open>e\<close> to the subscribers \<open>cs\<close> still to
  come, no registration, no deregistration, no next event) and the registry is unchanged.
\<close>

theorem stalled_subscriber_blocks_loop:
  assumes "lpc s = L_Range e (c # cs)" and "hpc s c \<noteq> Some H_Recv"
    and "exec s acts = Some t" and "\<forall>ok. WriteDone c ok \<notin> set acts"
  shows "lpc t = L_Range e (c # cs) \<and> hpc t c \<noteq> Some H_Recv \<and> clients t = clients s \<and>
         (\<forall>a \<in> set acts. \<not> loop_action a)"
  using assms
proof (induction acts arbitrary: s)
  case Nil
  then show ?case by simp
next
  case (Cons a rest)
  from Cons.prems(3) obtain u where u: "step a s = Some u" "exec u rest = Some t"
    by (rule exec_ConsE)
  from Cons.prems(4) have na: "\<forall>ok. a \<noteq> WriteDone c ok"
    and nr: "\<forall>ok. WriteDone c ok \<notin> set rest"
    by auto
  note st = step_blocked [OF u(1) Cons.prems(1) Cons.prems(2) na]
  from st have "lpc u = L_Range e (c # cs)" "hpc u c \<noteq> Some H_Recv" by simp_all
  from Cons.IH [OF this u(2) nr] st show ?case by simp
qed

theorem stalled_subscriber_blocks_loop_witness:
  "map_option lpc
     (exec (main False ''localhost:3000'' False)
        ([Listen, Accept 1 True True, Register 1, Accept 0 True True, Register 0,
          Scan (Some line1), Publish (token line1), Take (token line1) [0, 1],
          Deliver 0 (token line1), Deliver 1 (token line1), WriteDone 1 True,
          Scan (Some line2), Publish (token line2), Take (token line2) [0, 1]]
         @ [Scan (Some line1), Publish (token line1), Accept 2 True True, Disconnect 1]))
   = Some (L_Range (token line2) [0, 1])"
proof -
  let ?m = "main False ''localhost:3000'' False"
  let ?tr = "[Listen, Accept 1 True True, Register 1, Accept 0 True True, Register 0,
          Scan (Some line1), Publish (token line1), Take (token line1) [0, 1],
          Deliver 0 (token line1), Deliver 1 (token line1), WriteDone 1 True,
          Scan (Some line2), Publish (token line2), Take (token line2) [0, 1]]"
  let ?acts = "[Scan (Some line1), Publish (token line1), Accept 2 True True, Disconnect 1]"
  note ev = line1_def line2_def token_def in_bounds_def Notifier_cap_def range_pc_def
  obtain s where s: "exec ?m ?tr = Some s"
    by (simp add: ev)
  then have s': "s = the (exec ?m ?tr)" by simp
  have l: "lpc s = L_Range (token line2) (0 # [1])"
    unfolding s' by (simp add: ev)
  have h: "hpc s 0 \<noteq> Some H_Recv"
    unfolding s' by (simp add: ev)
  obtain t where t: "exec s ?acts = Some t"
    unfolding s' by (simp add: ev)
  have w: "\<forall>ok. WriteDone 0 ok \<notin> set ?acts" by simp
  from stalled_subscriber_blocks_loop [OF l h t w]
  have "lpc t = L_Range (token line2) [0, 1]" by simp
  moreover from s t have "exec ?m (?tr @ ?acts) = Some t"
    by (simp only: exec_append option.case)
  ultimately show ?thesis by (simp only: option.map)
qed

text \<open>
  Two subscribers, 0 and 1, have received a first event; subscriber 0 has not finished
  writing it, subscriber 1 is back in its receive. A second event is taken and the
  \<open>range\<close> produces 0 before 1. The send to 0 cannot happen, and the send to 1, who is
  ready, cannot happen either: the offer to 1 waits for 0.
\<close>

theorem ready_subscriber_waits_for_stalled_one:
  "map_option (\<lambda>t. (lpc t, hpc t 1, step (Deliver 0 (token line2)) t = None,
                     step (Deliver 1 (token line2)) t = None))
     (exec (main False ''localhost:3000'' False)
        [Listen, Accept 1 True True, Register 1, Accept 0 True True, Register 0,
         Scan (Some line1), Publish (token line1), Take (token line1) [0, 1],
         Deliver 0 (token line1), Deliver 1 (token line1), WriteDone 1 True,
         Scan (Some line2), Publish (token line2), Take (token line2) [0, 1]])
   = Some (L_Range (token line2) [0, 1], Some H_Recv, True, True)"
  by (simp add: line1_def line2_def token_def in_bounds_def Notifier_cap_def range_pc_def)

section \<open>Order of delivery\<close>

lemma step_fifo_inv:
  assumes "step a s = Some u" and "fifo_inv s tk"
  shows "fifo_inv u (tk @ taken [a])"
  using assms unfolding fifo_inv_def
  by (elim step.elims) (auto simp: range_pc_def split: step_splits)

lemma step_lo:
  assumes "step a s = Some u" and "fifo_inv s tk"
  shows "lo s (length tk) c \<le> lo u (length (tk @ taken [a])) c"
  using assms unfolding fifo_inv_def lo_def in_range_def
  by (elim step.elims) (auto simp: range_pc_def split: step_splits)

lemma step_delivery:
  assumes "step a s = Some u" and "fifo_inv s tk"
  shows "deliveries c (length tk) [a] = [] \<and> received c [a] = [] \<or>
         deliveries c (length tk) [a] = [length tk] \<and> received c [a] = [last tk] \<and>
         taken [a] = [] \<and> tk \<noteq> [] \<and> lo s (length tk) c = length tk \<and>
         lo u (length tk) c = Suc (length tk)"
  using assms unfolding fifo_inv_def lo_def in_range_def
  by (elim step.elims) (auto simp: range_pc_def split: step_splits)

lemma deliveries_Cons:
  "deliveries c n (a # rest) = deliveries c n [a] @ deliveries c (n + length (taken [a])) rest"
  by (cases a) simp_all

lemma received_Cons: "received c (a # rest) = received c [a] @ received c rest"
  by simp

lemma taken_Cons: "taken (a # rest) = taken [a] @ taken rest"
  by simp

lemma exec_fifo:
  assumes "exec s acts = Some t" and "fifo_inv s tk"
  shows "sorted_wrt (<) (deliveries c (length tk) acts) \<and>
         (\<forall>x \<in> set (deliveries c (length tk) acts).
            lo s (length tk) c \<le> x \<and> x \<le> length tk + length (taken acts)) \<and>
         map (\<lambda>x. (tk @ taken acts) ! (x - 1)) (deliveries c (length tk) acts) = received c acts"
  using assms
proof (induction acts arbitrary: s tk)
  case Nil
  show ?case by simp
next
  case (Cons a rest)
  from Cons.prems(1) obtain u where u: "step a s = Some u" "exec u rest = Some t"
    by (rule exec_ConsE)
  let ?n = "length tk"
  let ?tk' = "tk @ taken [a]"
  let ?D2 = "deliveries c (length ?tk') rest"
  have inv: "fifo_inv u ?tk'" using u(1) Cons.prems(2) by (rule step_fifo_inv)
  have mono: "lo s ?n c \<le> lo u (length ?tk') c" using u(1) Cons.prems(2) by (rule step_lo)
  from Cons.IH [OF u(2) inv]
  have srt: "sorted_wrt (<) ?D2"
    and bnd: "\<forall>x \<in> set ?D2. lo u (length ?tk') c \<le> x \<and> x \<le> length ?tk' + length (taken rest)"
    and cnt: "map (\<lambda>x. (?tk' @ taken rest) ! (x - 1)) ?D2 = received c rest"
    by simp_all
  have D: "deliveries c ?n (a # rest) = deliveries c ?n [a] @ ?D2"
    using deliveries_Cons [of c ?n a rest] by simp
  have T: "tk @ taken (a # rest) = ?tk' @ taken rest"
    using taken_Cons [of a rest] by simp
  have L: "length tk + length (taken (a # rest)) = length ?tk' + length (taken rest)"
    using taken_Cons [of a rest] by simp
  from step_delivery [OF u(1) Cons.prems(2), of c]
  show ?case
  proof (elim disjE conjE)
    assume e: "deliveries c ?n [a] = []" "received c [a] = []"
    have R: "received c (a # rest) = received c rest"
      using received_Cons [of c a rest] e(2) by simp
    from e(1) D have D': "deliveries c ?n (a # rest) = ?D2" by simp
    from bnd mono have "\<forall>x \<in> set ?D2. lo s ?n c \<le> x \<and> x \<le> length ?tk' + length (taken rest)"
      by auto
    with srt cnt show ?thesis
      unfolding D' R T L by simp
  next
    assume e: "deliveries c ?n [a] = [?n]" "received c [a] = [last tk]" "taken [a] = []"
      "tk \<noteq> []" "lo s ?n c = ?n" "lo u ?n c = Suc ?n"
    have R: "received c (a # rest) = last tk # received c rest"
      using received_Cons [of c a rest] e(2) by simp
    from e(1) D have D': "deliveries c ?n (a # rest) = ?n # ?D2" by simp
    from e(3) have tk': "?tk' = tk" by simp
    from bnd e(6) have gt: "\<forall>x \<in> set ?D2. ?n < x"
      unfolding tk' by auto
    from e(4) have "(tk @ taken rest) ! (?n - 1) = last tk"
      by (simp add: nth_append last_conv_nth)
    with srt bnd cnt gt e(5) show ?thesis
      unfolding D' R T L unfolding tk' by auto
  qed
qed

lemma step_alternates:
  assumes "step a s = Some u"
  shows "alternates (writing s c) c (a # rest) = alternates (writing u c) c rest"
  using assms unfolding writing_def
  by (elim step.elims) (auto split: step_splits)

lemma exec_alternates:
  assumes "exec s acts = Some t"
  shows "alternates (writing s c) c acts"
  using assms
proof (induction acts arbitrary: s)
  case Nil
  show ?case by simp
next
  case (Cons a rest)
  from Cons.prems(1) obtain u where u: "step a s = Some u" "exec u rest = Some t"
    by (rule exec_ConsE)
  from Cons.IH [OF u(2)] step_alternates [OF u(1), of c rest] show ?case by simp
qed

text \<open>
  C8. In every run of the program and for every subscriber \<open>c\<close>: each event \<open>c\<close> receives
  is one the loop took from \<open>Notifier\<close>, namely the one with the recorded ordinal; along
  the sequence of receives of \<open>c\<close> the ordinals strictly increase, so of two events
  offered to \<open>c\<close> the one the loop processed first is received first, and none is
  received twice. The handler's receives and completed writes take turns, starting with
  a receive: every event is written and flushed before the next one is received.
\<close>

theorem fifo_per_subscriber:
  assumes "exec (main p l v) acts = Some t"
  shows "sorted_wrt (<) (deliveries c 0 acts) \<and>
         (\<forall>x \<in> set (deliveries c 0 acts). 1 \<le> x \<and> x \<le> length (taken acts)) \<and>
         map (\<lambda>x. taken acts ! (x - 1)) (deliveries c 0 acts) = received c acts \<and>
         alternates False c acts"
proof -
  have inv: "fifo_inv (main p l v) []" by (simp add: fifo_inv_def)
  have lo0: "lo (main p l v) 0 c = 1" by (simp add: lo_def in_range_def)
  have wr: "writing (main p l v) c = False" by (simp add: writing_def)
  from exec_fifo [OF assms inv, of c] exec_alternates [OF assms, of c]
  show ?thesis unfolding wr by (simp add: lo0)
qed

theorem fifo_per_subscriber_witness:
  "deliveries 1 0
     [Listen, Accept 1 True True, Register 1, Accept 0 True True, Register 0,
      Scan (Some line1), Publish (token line1), Take (token line1) [0, 1],
      Deliver 0 (token line1), Deliver 1 (token line1), WriteDone 1 True, WriteDone 0 True,
      Scan (Some line2), Publish (token line2), Take (token line2) [0, 1],
      Deliver 0 (token line2), Deliver 1 (token line2)] = [1, 2] \<and>
   received 1
     [Listen, Accept 1 True True, Register 1, Accept 0 True True, Register 0,
      Scan (Some line1), Publish (token line1), Take (token line1) [0, 1],
      Deliver 0 (token line1), Deliver 1 (token line1), WriteDone 1 True, WriteDone 0 True,
      Scan (Some line2), Publish (token line2), Take (token line2) [0, 1],
      Deliver 0 (token line2), Deliver 1 (token line2)] = [token line1, token line2] \<and>
   sorted_wrt (<) [1, 2 :: nat]"
proof -
  let ?tr = "[Listen, Accept 1 True True, Register 1, Accept 0 True True, Register 0,
      Scan (Some line1), Publish (token line1), Take (token line1) [0, 1],
      Deliver 0 (token line1), Deliver 1 (token line1), WriteDone 1 True, WriteDone 0 True,
      Scan (Some line2), Publish (token line2), Take (token line2) [0, 1],
      Deliver 0 (token line2), Deliver 1 (token line2)]"
  obtain t where t: "exec (main False ''localhost:3000'' False) ?tr = Some t"
    by (simp add: line1_def line2_def token_def in_bounds_def Notifier_cap_def range_pc_def)
  have d: "deliveries 1 0 ?tr = [1, 2]" by simp
  have r: "received 1 ?tr = [token line1, token line2]" by simp
  from fifo_per_subscriber [OF t, of 1] have "sorted_wrt (<) (deliveries 1 0 ?tr)"
    by (rule conjunct1)
  then have s: "sorted_wrt (<) [1, 2 :: nat]" by (simp only: d)
  from d r s show ?thesis by (intro conjI)
qed

section \<open>The producers\<close>

lemma step_prompt_flag:
  assumes "step a s = Some u"
  shows "prompt_flag u = prompt_flag s"
  using assms
  by (elim step.elims) (auto split: step_splits)

lemma step_published:
  assumes "step a s = Some u"
  shows "published (heap s) (a # rest) = published (heap s) [a] @ published (heap u) rest"
  using assms
  by (elim step.elims) (auto split: step_splits)

lemma length_unit_bytes: "in_bounds r \<Longrightarrow> length (unit_bytes r) = tok_len r"
  by (auto simp: in_bounds_def unit_bytes_def)

lemma unit_bytes_empty: "in_bounds r \<Longrightarrow> unit_bytes r = [] \<longleftrightarrow> tok_len r = 0"
  using length_unit_bytes [of r] by auto

lemma deref_store_token: "deref (store h r) (token r) = unit_bytes r"
  by (simp add: deref_def store_def token_def unit_bytes_def)

lemma step_pending:
  assumes "step a s = Some u"
  shows "published (heap s) [a] @ pending_send u = pending_send s @ to_publish (prompt_flag s) [a]"
  using assms unfolding pending_send_def to_publish_def
  by (elim step.elims)
     (auto simp: deref_store_token unit_bytes_empty split: step_splits)

lemma to_publish_Cons: "to_publish p (a # rest) = to_publish p [a] @ to_publish p rest"
  by (simp add: to_publish_def)

lemma exec_published:
  assumes "exec s acts = Some t"
  shows "published (heap s) acts @ pending_send t
         = pending_send s @ to_publish (prompt_flag s) acts"
  using assms
proof (induction acts arbitrary: s)
  case Nil
  show ?case using Nil by (simp add: to_publish_def)
next
  case (Cons a rest)
  from Cons.prems(1) obtain u where u: "step a s = Some u" "exec u rest = Some t"
    by (rule exec_ConsE)
  have "published (heap s) (a # rest) @ pending_send t
        = published (heap s) [a] @ (published (heap u) rest @ pending_send t)"
    using step_published [OF u(1), of rest] by simp
  also have "\<dots> = published (heap s) [a] @ (pending_send u @ to_publish (prompt_flag u) rest)"
    using Cons.IH [OF u(2)] by simp
  also have "\<dots> = (published (heap s) [a] @ pending_send u) @ to_publish (prompt_flag s) rest"
    using step_prompt_flag [OF u(1)] by simp
  also have "\<dots> = (pending_send s @ to_publish (prompt_flag s) [a]) @ to_publish (prompt_flag s) rest"
    using step_pending [OF u(1)] by simp
  also have "\<dots> = pending_send s @ to_publish (prompt_flag s) (a # rest)"
    using to_publish_Cons [of "prompt_flag s" a rest] by simp
  finally show ?case .
qed

text \<open>
  C10, as the code behaves. In every run, the bytes of the messages sent on \<open>Notifier\<close>
  so far, followed by the message the producer is about to send, are: without \<open>-p\<close>,
  the units the scanner has yielded, every one of them once, empty lines included, in
  the scanner's order; with \<open>-p\<close>, the non-empty lines \<open>ReadLine\<close> has yielded, every one
  of them once, in the reader's order (the guard of line 129 drops an empty line).
\<close>

theorem producer_units_published_in_order:
  assumes "exec (main p l v) acts = Some t"
  shows "published (\<lambda>_. []) acts @ pending_send t
         = (if p then filter (\<lambda>u. u \<noteq> []) (yielded acts) else yielded acts)"
proof -
  have "pending_send (main p l v) = []" by (simp add: pending_send_def)
  with exec_published [OF assms] show ?thesis by (simp add: to_publish_def)
qed

theorem producer_units_published_in_order_witness:
  "published (\<lambda>_. [])
     [Scan (Some line1), Publish (token line1), Listen, Take (token line1) [],
      Scan (Some empty_line), Publish (token empty_line), Scan None]
   = [''hello'', ''''] \<and>
   yielded
     [Scan (Some line1), Publish (token line1), Listen, Take (token line1) [],
      Scan (Some empty_line), Publish (token empty_line), Scan None]
   = [''hello'', '''']"
proof -
  let ?tr = "[Scan (Some line1), Publish (token line1), Listen, Take (token line1) [],
      Scan (Some empty_line), Publish (token empty_line), Scan None]"
  note ev = line1_def empty_line_def token_def in_bounds_def Notifier_cap_def range_pc_def
  obtain t where t: "exec (main False ''localhost:3000'' False) ?tr = Some t"
    by (simp add: ev)
  then have t': "t = the (exec (main False ''localhost:3000'' False) ?tr)" by simp
  have pd: "pending_send t = []" unfolding t' by (simp add: ev pending_send_def)
  have y: "yielded ?tr = [''hello'', '''']" by (simp add: ev unit_bytes_def)
  from producer_units_published_in_order [OF t] have "published (\<lambda>_. []) ?tr = yielded ?tr"
    unfolding pd by simp
  with y show ?thesis by simp
qed

text \<open>
  With \<open>-p\<close>, the reader yields an empty line: nothing is sent on \<open>Notifier\<close>, and the
  producer is back at its prompt with no message in hand.
\<close>

theorem prompt_drops_empty_line:
  "yielded [Prompt, ReadLine empty_line None] = [''''] \<and>
   published (\<lambda>_. []) [Prompt, ReadLine empty_line None] = [] \<and>
   map_option (\<lambda>t. (ppc t, Notifier t, pending_send t))
     (exec (main True ''localhost:3000'' False) [Prompt, ReadLine empty_line None])
   = Some (P_Prompt, [], [])"
  by (simp add: empty_line_def in_bounds_def unit_bytes_def pending_send_def)

end
